theory Spec2Isabelle
  imports Main "HOL-Library.Word"
begin

unbundle bit_operations_syntax

section \<open>Data model of \<open>typescript/src/pfid.ts\<close>\<close>

text \<open>
  A Node \<open>Buffer\<close> is a sequence of bytes; a JavaScript string is a sequence of UTF-16
  code units, and \<open>s.length\<close>, \<open>s[i]\<close> and a regular expression without the \<open>u\<close>
  flag all work on code units. The numbers \<open>partition\<close> (written \<open>part\<close> below)
  and \<open>timestamp\<close> are modelled as integers: \<open>Number.isInteger\<close> rejects every
  other number. Small non-negative numbers that only ever hold a few bits (symbol values,
  bit offsets, iteration counts) are naturals.
\<close>

type_synonym byte = "8 word"
type_synonym Buffer = "byte list"
type_synonym code_unit = "16 word"
type_synonym jsstring = "code_unit list"

text \<open>An ASCII literal as a JavaScript string.\<close>

definition ascii :: "string \<Rightarrow> jsstring" where
  "ascii cs = map (\<lambda>c. of_nat (of_char c)) cs"

text \<open>
  What a function throws: the plain \<open>Error\<close> objects of the source, told apart by the
  prefix of their message, and the \<open>TypeError\<close> of calling a method on \<open>undefined\<close>.
\<close>

datatype js_error = InvalidCharacter | InvalidPartition | InvalidTimestamp | TypeError

text \<open>
  \<open>PfidErrorCode\<close> of \<open>errors.ts\<close>. A \<open>PfidError\<close> is modelled by its code; its
  message, a rendering of the offending input, is left out.
\<close>

datatype PfidErrorCode = invalid_binary | invalid_pfid | invalid_partition

definition MAX_TIMESTAMP :: int where
  "MAX_TIMESTAMP = 281474976710655"

definition MAX_PARTITION :: int where
  "MAX_PARTITION = 1073741823"

section \<open>Crockford Base32 tables\<close>

definition ENCODE_CHARS :: jsstring where
  "ENCODE_CHARS = ascii ''0123456789abcdefghjkmnpqrstvwxyz''"

definition DECODE_MAP :: "(jsstring \<times> nat) list" where
  "DECODE_MAP =
    [(ascii ''0'', 0), (ascii ''1'', 1), (ascii ''2'', 2), (ascii ''3'', 3),
     (ascii ''4'', 4), (ascii ''5'', 5), (ascii ''6'', 6), (ascii ''7'', 7),
     (ascii ''8'', 8), (ascii ''9'', 9), (ascii ''a'', 10), (ascii ''b'', 11),
     (ascii ''c'', 12), (ascii ''d'', 13), (ascii ''e'', 14), (ascii ''f'', 15),
     (ascii ''g'', 16), (ascii ''h'', 17), (ascii ''j'', 18), (ascii ''k'', 19),
     (ascii ''m'', 20), (ascii ''n'', 21), (ascii ''p'', 22), (ascii ''q'', 23),
     (ascii ''r'', 24), (ascii ''s'', 25), (ascii ''t'', 26), (ascii ''v'', 27),
     (ascii ''w'', 28), (ascii ''x'', 29), (ascii ''y'', 30), (ascii ''z'', 31)]"

text \<open>
  \<open>ENCODE_CHARS[value]\<close>: a one-character string, or \<open>undefined\<close> past the end of the
  table, which string concatenation then renders as the text \<open>undefined\<close>.
\<close>

definition encodeChar :: "nat \<Rightarrow> jsstring" where
  "encodeChar val =
     (if val < length ENCODE_CHARS then [ENCODE_CHARS ! val] else ascii ''undefined'')"

text \<open>
  \<open>String.prototype.toLowerCase\<close> on one code unit, after the Unicode default case
  conversion (not locale-sensitive). The units whose lower-case form is made of ASCII
  letters or digits are the letters \<open>A\<close> to \<open>Z\<close>, U+212A KELVIN SIGN (lower case
  U+006B, the letter \<open>k\<close>) and U+0130 (lower case \<open>i\<close> followed by U+0307). Every other
  unit is either unchanged or mapped to other non-ASCII units; the model leaves those
  unchanged, which gives the same lookup in \<open>DECODE_MAP\<close>, whose keys are ASCII.
\<close>

definition toLowerCase_unit :: "code_unit \<Rightarrow> jsstring" where
  "toLowerCase_unit c =
     (if 0x41 \<le> c \<and> c \<le> 0x5A then [c + 0x20]
      else if c = 0x212A then [0x6B]
      else if c = 0x130 then [0x69, 0x307]
      else [c])"

definition toLowerCase :: "jsstring \<Rightarrow> jsstring" where
  "toLowerCase s = concat (map toLowerCase_unit s)"

text \<open>
  \<open>DECODE_MAP[char.toLowerCase()]\<close>: the own keys of the table are the only property
  names of one to three code units that a plain object answers to.
\<close>

definition decodeChar :: "jsstring \<Rightarrow> js_error + nat" where
  "decodeChar char =
     (case map_of DECODE_MAP (toLowerCase char) of
        None \<Rightarrow> Inl InvalidCharacter
      | Some val \<Rightarrow> Inr val)"

text \<open>
  \<open>decodeChar(s[i])\<close>: past the end of the string \<open>s[i]\<close> is \<open>undefined\<close>, and
  \<open>undefined.toLowerCase()\<close> throws a \<open>TypeError\<close>.
\<close>

definition decodeCharAt :: "jsstring \<Rightarrow> nat \<Rightarrow> js_error + nat" where
  "decodeCharAt s i = (if i < length s then decodeChar [s ! i] else Inl TypeError)"

text \<open>Sequencing of calls that may throw.\<close>

definition andThen :: "'e + 'a \<Rightarrow> ('a \<Rightarrow> 'e + 'b) \<Rightarrow> 'e + 'b" where
  "andThen r f = (case r of Inl e \<Rightarrow> Inl e | Inr v \<Rightarrow> f v)"

section \<open>Validation guards\<close>

definition isValidTimestamp :: "int \<Rightarrow> bool" where
  "isValidTimestamp timestamp \<longleftrightarrow> timestamp \<ge> 0 \<and> timestamp \<le> MAX_TIMESTAMP"

definition isValidPartition :: "int \<Rightarrow> bool" where
  "isValidPartition part \<longleftrightarrow> part \<ge> 0 \<and> part \<le> MAX_PARTITION"

section \<open>32-bit operators of JavaScript\<close>

text \<open>
  \<open>a & b\<close> and \<open>a >> k\<close> first take their operands modulo \<open>2^32\<close> into the signed
  32-bit range (ToInt32); \<open>>>\<close> keeps the sign. Storing a number into a \<open>Buffer\<close>
  keeps its low 8 bits.
\<close>

definition js_and :: "int \<Rightarrow> int \<Rightarrow> int" where
  "js_and a b = sint ((word_of_int a :: 32 word) AND word_of_int b)"

definition js_shr :: "int \<Rightarrow> nat \<Rightarrow> int" where
  "js_shr a k = sint (signed_drop_bit (k mod 32) (word_of_int a :: 32 word))"

definition toUint8 :: "int \<Rightarrow> byte" where
  "toUint8 v = word_of_int v"

text \<open>\<open>buffer.writeUInt32BE(value, offset)\<close> for a value in range: the four bytes.\<close>

definition writeUInt32BE :: "int \<Rightarrow> Buffer" where
  "writeUInt32BE v =
     [toUint8 (v div 2 ^ 24), toUint8 (v div 2 ^ 16), toUint8 (v div 2 ^ 8), toUint8 v]"

text \<open>\<open>buffer.readUInt32BE(offset)\<close> on a buffer that holds the four bytes.\<close>

definition readUInt32BE :: "Buffer \<Rightarrow> nat \<Rightarrow> int" where
  "readUInt32BE buffer off =
     uint (buffer ! off) * 2 ^ 24 + uint (buffer ! (off + 1)) * 2 ^ 16
       + uint (buffer ! (off + 2)) * 2 ^ 8 + uint (buffer ! (off + 3))"

section \<open>Packing the fields\<close>

text \<open>
  \<open>generateBinaryWithTimestamp\<close>; the argument \<open>rnd\<close> stands for the result of
  \<open>randomBytes(10)\<close>, which is ten bytes long. \<open>Math.floor(timestamp / 0x10000000000)\<close>
  is exact on the integers below \<open>2^53\<close>.
\<close>

definition generateBinaryWithTimestamp :: "int \<Rightarrow> int \<Rightarrow> Buffer \<Rightarrow> js_error + Buffer" where
  "generateBinaryWithTimestamp part timestamp rnd =
     (if \<not> isValidPartition part then Inl InvalidPartition
      else if \<not> isValidTimestamp timestamp then Inl InvalidTimestamp
      else Inr
        ([toUint8 (js_and (timestamp div 0x10000000000) 0xff),
          toUint8 (js_and (timestamp div 0x100000000) 0xff),
          toUint8 (js_and (js_shr timestamp 24) 0xff),
          toUint8 (js_and (js_shr timestamp 16) 0xff),
          toUint8 (js_and (js_shr timestamp 8) 0xff),
          toUint8 (js_and timestamp 0xff)]
         @ writeUInt32BE part
         @ take 10 rnd))"

section \<open>Bit cursor: reading\<close>

text \<open>\<open>binary[byteIndex]\<close> as a number; past the end it is \<open>undefined\<close>, which \<open>>>\<close> reads as 0.\<close>

definition byteAt :: "Buffer \<Rightarrow> nat \<Rightarrow> nat" where
  "byteAt binary byteIndex = (if byteIndex < length binary then unat (binary ! byteIndex) else 0)"

text \<open>
  The loop of \<open>readBits\<close>: the state is the accumulated value and the shared
  \<open>bitOffset\<close>; the first argument counts the iterations left.
\<close>

fun readBits_loop :: "Buffer \<Rightarrow> nat \<Rightarrow> nat \<times> nat \<Rightarrow> nat \<times> nat" where
  "readBits_loop binary 0 (val, bitOffset) = (val, bitOffset)"
| "readBits_loop binary (Suc n) (val, bitOffset) =
     (let byteIndex = bitOffset div 8;
          bitIndex = 7 - bitOffset mod 8;
          b = drop_bit bitIndex (byteAt binary byteIndex) AND 1
      in readBits_loop binary n (push_bit 1 val OR b, bitOffset + 1))"

definition readBits :: "Buffer \<Rightarrow> nat \<Rightarrow> nat \<Rightarrow> nat \<times> nat" where
  "readBits binary count bitOffset = readBits_loop binary count (0, bitOffset)"

section \<open>Bit cursor: writing\<close>

text \<open>
  The loop of \<open>writeBits\<close>, \<open>i\<close> running from \<open>count - 1\<close> down to 0. A write past the
  end of a \<open>Buffer\<close> is ignored, as list update is.
\<close>

fun writeBits :: "nat \<Rightarrow> nat \<Rightarrow> Buffer \<times> nat \<Rightarrow> Buffer \<times> nat" where
  "writeBits val 0 (buffer, bitOffset) = (buffer, bitOffset)"
| "writeBits val (Suc i) (buffer, bitOffset) =
     (let byteIndex = bitOffset div 8;
          bitIndex = 7 - bitOffset mod 8;
          b = drop_bit i val AND 1
      in writeBits val i
           (buffer[byteIndex := (buffer ! byteIndex) OR of_nat (push_bit bitIndex b)],
            bitOffset + 1))"

section \<open>Binary to text\<close>

text \<open>
  \<open>unsafeEncode\<close>: the calls of \<open>readBits\<close> in the order of the source, each
  handing the shared \<open>bitOffset\<close> to the next; the two padding bits are read and dropped.
\<close>

definition unsafeEncode :: "Buffer \<Rightarrow> jsstring" where
  "unsafeEncode binary =
     (let (t1, o1) = readBits binary 3 0;
          (t2, o2) = readBits binary 5 o1;
          (t3, o3) = readBits binary 5 o2;
          (t4, o4) = readBits binary 5 o3;
          (t5, o5) = readBits binary 5 o4;
          (t6, o6) = readBits binary 5 o5;
          (t7, o7) = readBits binary 5 o6;
          (t8, o8) = readBits binary 5 o7;
          (t9, o9) = readBits binary 5 o8;
          (t10, o10) = readBits binary 5 o9;
          (pad, o11) = readBits binary 2 o10;
          (p1, o12) = readBits binary 5 o11;
          (p2, o13) = readBits binary 5 o12;
          (p3, o14) = readBits binary 5 o13;
          (p4, o15) = readBits binary 5 o14;
          (p5, o16) = readBits binary 5 o15;
          (p6, o17) = readBits binary 5 o16;
          (r1, o18) = readBits binary 5 o17;
          (r2, o19) = readBits binary 5 o18;
          (r3, o20) = readBits binary 5 o19;
          (r4, o21) = readBits binary 5 o20;
          (r5, o22) = readBits binary 5 o21;
          (r6, o23) = readBits binary 5 o22;
          (r7, o24) = readBits binary 5 o23;
          (r8, o25) = readBits binary 5 o24;
          (r9, o26) = readBits binary 5 o25;
          (r10, o27) = readBits binary 5 o26;
          (r11, o28) = readBits binary 5 o27;
          (r12, o29) = readBits binary 5 o28;
          (r13, o30) = readBits binary 5 o29;
          (r14, o31) = readBits binary 5 o30;
          (r15, o32) = readBits binary 5 o31;
          (r16, o33) = readBits binary 5 o32
      in encodeChar t1 @ encodeChar t2 @ encodeChar t3 @ encodeChar t4 @ encodeChar t5
           @ encodeChar t6 @ encodeChar t7 @ encodeChar t8 @ encodeChar t9 @ encodeChar t10
           @ encodeChar p1 @ encodeChar p2 @ encodeChar p3 @ encodeChar p4 @ encodeChar p5
           @ encodeChar p6 @ encodeChar r1 @ encodeChar r2 @ encodeChar r3 @ encodeChar r4
           @ encodeChar r5 @ encodeChar r6 @ encodeChar r7 @ encodeChar r8 @ encodeChar r9
           @ encodeChar r10 @ encodeChar r11 @ encodeChar r12 @ encodeChar r13 @ encodeChar r14
           @ encodeChar r15 @ encodeChar r16)"

section \<open>Text to binary\<close>

text \<open>
  \<open>unsafeDecode\<close>: the 32 calls of \<open>decodeChar\<close> in order, the first failure
  being thrown, then the calls of \<open>writeBits\<close> on \<open>Buffer.alloc(20, 0)\<close>.
\<close>

definition unsafeDecode :: "jsstring \<Rightarrow> js_error + Buffer" where
  "unsafeDecode pfid =
     andThen (decodeCharAt pfid 0) (\<lambda>t1.
     andThen (decodeCharAt pfid 1) (\<lambda>t2.
     andThen (decodeCharAt pfid 2) (\<lambda>t3.
     andThen (decodeCharAt pfid 3) (\<lambda>t4.
     andThen (decodeCharAt pfid 4) (\<lambda>t5.
     andThen (decodeCharAt pfid 5) (\<lambda>t6.
     andThen (decodeCharAt pfid 6) (\<lambda>t7.
     andThen (decodeCharAt pfid 7) (\<lambda>t8.
     andThen (decodeCharAt pfid 8) (\<lambda>t9.
     andThen (decodeCharAt pfid 9) (\<lambda>t10.
     andThen (decodeCharAt pfid 10) (\<lambda>p1.
     andThen (decodeCharAt pfid 11) (\<lambda>p2.
     andThen (decodeCharAt pfid 12) (\<lambda>p3.
     andThen (decodeCharAt pfid 13) (\<lambda>p4.
     andThen (decodeCharAt pfid 14) (\<lambda>p5.
     andThen (decodeCharAt pfid 15) (\<lambda>p6.
     andThen (decodeCharAt pfid 16) (\<lambda>r1.
     andThen (decodeCharAt pfid 17) (\<lambda>r2.
     andThen (decodeCharAt pfid 18) (\<lambda>r3.
     andThen (decodeCharAt pfid 19) (\<lambda>r4.
     andThen (decodeCharAt pfid 20) (\<lambda>r5.
     andThen (decodeCharAt pfid 21) (\<lambda>r6.
     andThen (decodeCharAt pfid 22) (\<lambda>r7.
     andThen (decodeCharAt pfid 23) (\<lambda>r8.
     andThen (decodeCharAt pfid 24) (\<lambda>r9.
     andThen (decodeCharAt pfid 25) (\<lambda>r10.
     andThen (decodeCharAt pfid 26) (\<lambda>r11.
     andThen (decodeCharAt pfid 27) (\<lambda>r12.
     andThen (decodeCharAt pfid 28) (\<lambda>r13.
     andThen (decodeCharAt pfid 29) (\<lambda>r14.
     andThen (decodeCharAt pfid 30) (\<lambda>r15.
     andThen (decodeCharAt pfid 31) (\<lambda>r16.
     Inr (fst (
       (let s1 = writeBits t1 3 (replicate 20 0, 0);
            s2 = writeBits t2 5 s1;
            s3 = writeBits t3 5 s2;
            s4 = writeBits t4 5 s3;
            s5 = writeBits t5 5 s4;
            s6 = writeBits t6 5 s5;
            s7 = writeBits t7 5 s6;
            s8 = writeBits t8 5 s7;
            s9 = writeBits t9 5 s8;
            s10 = writeBits t10 5 s9;
            s11 = writeBits 0 2 s10;
            s12 = writeBits p1 5 s11;
            s13 = writeBits p2 5 s12;
            s14 = writeBits p3 5 s13;
            s15 = writeBits p4 5 s14;
            s16 = writeBits p5 5 s15;
            s17 = writeBits p6 5 s16;
            s18 = writeBits r1 5 s17;
            s19 = writeBits r2 5 s18;
            s20 = writeBits r3 5 s19;
            s21 = writeBits r4 5 s20;
            s22 = writeBits r5 5 s21;
            s23 = writeBits r6 5 s22;
            s24 = writeBits r7 5 s23;
            s25 = writeBits r8 5 s24;
            s26 = writeBits r9 5 s25;
            s27 = writeBits r10 5 s26;
            s28 = writeBits r11 5 s27;
            s29 = writeBits r12 5 s28;
            s30 = writeBits r13 5 s29;
            s31 = writeBits r14 5 s30;
            s32 = writeBits r15 5 s31;
            s33 = writeBits r16 5 s32
        in s33)))))))))))))))))))))))))))))))))))"

section \<open>Validation of text\<close>

text \<open>
  The regular expression \<open>/^[0-7][0-9abcdefghjkmnpqrstvwxyz]{31}$/\<close>: no flags, so the
  classes are case-sensitive and \<open>$\<close> is the end of the input.
\<close>

definition validPattern_test :: "jsstring \<Rightarrow> bool" where
  "validPattern_test s =
     (case s of
        [] \<Rightarrow> False
      | c # cs \<Rightarrow> c \<in> set (ascii ''01234567'') \<and> length cs = 31
                 \<and> (\<forall>x \<in> set cs. x \<in> set (ascii ''0123456789abcdefghjkmnpqrstvwxyz'')))"

text \<open>\<open>isPfid\<close> on a string; one-character strings compare by their code unit.\<close>

definition isPfid :: "jsstring \<Rightarrow> bool" where
  "isPfid s =
     (if length s \<noteq> 32 then False
      else if s ! 0 < 0x30 \<or> s ! 0 > 0x37 then False
      else validPattern_test s)"

section \<open>Result-style entry points\<close>

definition encode :: "Buffer \<Rightarrow> PfidErrorCode + jsstring" where
  "encode binary =
     (if length binary \<noteq> 20 then Inl invalid_binary
      else let encoded = unsafeEncode binary
           in if isPfid encoded then Inr encoded else Inl invalid_binary)"

definition decode :: "jsstring \<Rightarrow> PfidErrorCode + Buffer" where
  "decode pfid =
     (if length pfid \<noteq> 32 then Inl invalid_pfid
      else if pfid ! 0 < 0x30 \<or> pfid ! 0 > 0x37 then Inl invalid_pfid
      else case unsafeDecode pfid of
             Inr binary \<Rightarrow> Inr binary
           | Inl e \<Rightarrow> Inl invalid_pfid)"

section \<open>Partition extraction\<close>

text \<open>\<open>s.substring(start, end)\<close> for \<open>start \<le> end\<close>, both clamped to the length.\<close>

definition substring :: "jsstring \<Rightarrow> nat \<Rightarrow> nat \<Rightarrow> jsstring" where
  "substring s start fin = take (min fin (length s) - min start (length s)) (drop start s)"

definition decodePartition :: "jsstring \<Rightarrow> PfidErrorCode + int" where
  "decodePartition partitionStr =
     (if length partitionStr \<noteq> 6 then Inl invalid_partition
      else case
         andThen (decodeCharAt partitionStr 0) (\<lambda>p1.
         andThen (decodeCharAt partitionStr 1) (\<lambda>p2.
         andThen (decodeCharAt partitionStr 2) (\<lambda>p3.
         andThen (decodeCharAt partitionStr 3) (\<lambda>p4.
         andThen (decodeCharAt partitionStr 4) (\<lambda>p5.
         andThen (decodeCharAt partitionStr 5) (\<lambda>p6.
         Inr (let buffer =
                [of_nat (push_bit 6 0 OR push_bit 1 p1 OR drop_bit 4 p2),
                 of_nat (push_bit 4 (p2 AND 0x0f) OR drop_bit 1 p3),
                 of_nat (push_bit 7 (p3 AND 0x01) OR push_bit 2 p4 OR drop_bit 3 p5),
                 of_nat (push_bit 5 (p5 AND 0x07) OR drop_bit 0 p6)]
              in js_and (readUInt32BE buffer 0) 0x3fffffff)))))))
       of Inr v \<Rightarrow> Inr v
        | Inl e \<Rightarrow> Inl invalid_partition)"

definition extractPartition :: "jsstring \<Rightarrow> PfidErrorCode + int" where
  "extractPartition pfid =
     (if \<not> isPfid pfid then Inl invalid_pfid
      else case decodePartition (substring pfid 10 16) of
             Inr v \<Rightarrow> Inr v
           | Inl e \<Rightarrow> Inl invalid_pfid)"

section \<open>Generation\<close>

definition generateWithTimestamp :: "int \<Rightarrow> int \<Rightarrow> Buffer \<Rightarrow> js_error + jsstring" where
  "generateWithTimestamp part timestamp rnd =
     (if \<not> isValidPartition part then Inl InvalidPartition
      else if \<not> isValidTimestamp timestamp then Inl InvalidTimestamp
      else andThen (generateBinaryWithTimestamp part timestamp rnd) (\<lambda>binary.
           Inr (unsafeEncode binary)))"

section \<open>Vocabulary of the proofs\<close>

text \<open>
  Bit \<open>k\<close> of a buffer, counted from the most significant bit of byte 0, as the two
  cursors address it; a bit past the end reads as unset.
\<close>

definition getbit :: "Buffer \<Rightarrow> nat \<Rightarrow> bool" where
  "getbit buf k \<longleftrightarrow> k div 8 < length buf \<and> bit (buf ! (k div 8)) (7 - k mod 8)"

text \<open>The value a call of \<open>readBits\<close> returns, and the buffer a call of \<open>writeBits\<close> leaves.\<close>

definition rd :: "Buffer \<Rightarrow> nat \<Rightarrow> nat \<Rightarrow> nat" where
  "rd binary n off = fst (readBits binary n off)"

definition wr :: "nat \<Rightarrow> nat \<Rightarrow> nat \<Rightarrow> Buffer \<Rightarrow> Buffer" where
  "wr val n off buf = fst (writeBits val n (buf, off))"

text \<open>A run of reads, and a run of writes, each starting where the one before stopped.\<close>

fun rds :: "Buffer \<Rightarrow> nat list \<Rightarrow> nat \<Rightarrow> nat list" where
  "rds binary [] off = []"
| "rds binary (n # ns) off = rd binary n off # rds binary ns (off + n)"

fun wrs :: "(nat \<times> nat) list \<Rightarrow> nat \<Rightarrow> Buffer \<Rightarrow> Buffer" where
  "wrs [] off buf = buf"
| "wrs ((v, n) # xs) off buf = wrs xs (off + n) (wr v n off buf)"

text \<open>
  \<open>agrees_upto a b off\<close>: buffer \<open>a\<close> holds the bits of \<open>b\<close> below \<open>off\<close> and nothing
  else. \<open>clear_from a off\<close>: no bit of \<open>a\<close> is set from \<open>off\<close> on.
\<close>

definition agrees_upto :: "Buffer \<Rightarrow> Buffer \<Rightarrow> nat \<Rightarrow> bool" where
  "agrees_upto a b off \<longleftrightarrow> length a = length b \<and> (\<forall>k. getbit a k \<longleftrightarrow> k < off \<and> getbit b k)"

definition clear_from :: "Buffer \<Rightarrow> nat \<Rightarrow> bool" where
  "clear_from a off \<longleftrightarrow> (\<forall>k\<ge>off. \<not> getbit a k)"

text \<open>A buffer with the two padding bits, the top bits of byte 6, cleared.\<close>

definition clearPadding :: "Buffer \<Rightarrow> Buffer" where
  "clearPadding b = b[6 := b ! 6 AND 0x3f]"

text \<open>
  The layout of the 160 bits as both \<open>unsafeEncode\<close> and \<open>unsafeDecode\<close> walk it: the
  widths of the 33 runs; the 32 values \<open>unsafeEncode\<close> turns into characters; the 33
  (value, width) pairs \<open>unsafeDecode\<close> writes for the decoded values \<open>f 0 \<dots> f 31\<close>.
\<close>

definition widths :: "nat list" where
  "widths = [3, 5, 5, 5, 5, 5, 5, 5, 5, 5, 2, 5, 5, 5, 5, 5, 5, 5, 5, 5, 5, 5, 5, 5, 5, 5, 5, 5, 5, 5,
     5, 5, 5]"

definition symbols :: "Buffer \<Rightarrow> nat list" where
  "symbols binary =
     [rd binary 3 0, rd binary 5 3, rd binary 5 8, rd binary 5 13, rd binary 5 18,
      rd binary 5 23, rd binary 5 28, rd binary 5 33, rd binary 5 38, rd binary 5 43,
      rd binary 5 50, rd binary 5 55, rd binary 5 60, rd binary 5 65, rd binary 5 70,
      rd binary 5 75, rd binary 5 80, rd binary 5 85, rd binary 5 90, rd binary 5 95,
      rd binary 5 100, rd binary 5 105, rd binary 5 110, rd binary 5 115, rd binary 5 120,
      rd binary 5 125, rd binary 5 130, rd binary 5 135, rd binary 5 140, rd binary 5 145,
      rd binary 5 150, rd binary 5 155]"

definition fields :: "(nat \<Rightarrow> nat) \<Rightarrow> (nat \<times> nat) list" where
  "fields f =
     [(f 0, 3), (f 1, 5), (f 2, 5), (f 3, 5), (f 4, 5), (f 5, 5), (f 6, 5), (f 7, 5), (f 8, 5),
      (f 9, 5), (0, 2), (f 10, 5), (f 11, 5), (f 12, 5), (f 13, 5), (f 14, 5), (f 15, 5),
      (f 16, 5), (f 17, 5), (f 18, 5), (f 19, 5), (f 20, 5), (f 21, 5), (f 22, 5), (f 23, 5),
      (f 24, 5), (f 25, 5), (f 26, 5), (f 27, 5), (f 28, 5), (f 29, 5), (f 30, 5), (f 31, 5)]"

text \<open>The value of a character that \<open>decodeChar\<close> accepts.\<close>

definition symval :: "code_unit \<Rightarrow> nat" where
  "symval c = (case decodeChar [c] of Inr v \<Rightarrow> v | Inl e \<Rightarrow> 0)"

section \<open>Bit-level facts about the two cursors\<close>

lemma read_one_bit:
  "drop_bit (7 - off mod 8) (byteAt binary (off div 8)) AND 1 = of_bool (getbit binary off)"
  by (simp add: byteAt_def getbit_def and_one_eq mod_2_eq_odd bit_unsigned_iff
      flip: bit_iff_odd_drop_bit)

lemma readBits_loop_snd: "snd (readBits_loop binary n (v, off)) = off + n"
  by (induction n arbitrary: v off) (simp_all add: Let_def)

lemma readBits_loop_bit:
  "bit (fst (readBits_loop binary n (v, off))) j
     = (if j < n then getbit binary (off + n - 1 - j) else bit v (j - n))"
proof (induction n arbitrary: v off j)
  case 0
  then show ?case by simp
next
  case (Suc n)
  have unfold: "readBits_loop binary (Suc n) (v, off)
      = readBits_loop binary n (push_bit 1 v OR of_bool (getbit binary off), off + 1)"
    by (simp only: readBits_loop.simps Let_def read_one_bit)
  have step: "bit (push_bit 1 v OR of_bool (getbit binary off)) i
      = (if i = 0 then getbit binary off else bit v (i - 1))" for i
    by (cases i) (simp_all add: bit_simps mult.commute [of v 2])
  have "bit (fst (readBits_loop binary (Suc n) (v, off))) j
      = (if j < n then getbit binary (off + 1 + n - 1 - j)
         else if j - n = 0 then getbit binary off else bit v (j - n - 1))"
    by (simp only: unfold Suc.IH step)
  also have "\<dots> = (if j < Suc n then getbit binary (off + Suc n - 1 - j) else bit v (j - Suc n))"
    by (auto simp: less_Suc_eq)
  finally show ?case .
qed

lemma rd_bit: "bit (rd binary n off) j \<longleftrightarrow> j < n \<and> getbit binary (off + n - 1 - j)"
  by (simp add: rd_def readBits_def readBits_loop_bit)

lemma nat_less_exp_if_no_high_bits:
  fixes x :: nat
  assumes "\<And>j. n \<le> j \<Longrightarrow> \<not> bit x j"
  shows "x < 2 ^ n"
proof -
  have "take_bit n x = x"
    by (rule bit_eqI) (meson assms bit_take_bit_iff not_le)
  then show ?thesis
    by (metis take_bit_nat_less_exp)
qed

lemma rd_less: "rd binary n off < 2 ^ n"
  by (rule nat_less_exp_if_no_high_bits) (simp add: rd_bit)

lemma readBits_eq: "readBits binary n off = (rd binary n off, off + n)"
  by (simp add: rd_def readBits_def prod_eq_iff readBits_loop_snd)

lemma writeBits_snd: "snd (writeBits v n (buf, off)) = off + n"
  by (induction n arbitrary: buf off) (simp_all add: Let_def)

lemma writeBits_length: "length (fst (writeBits v n (buf, off))) = length buf"
  by (induction n arbitrary: buf off) (simp_all add: Let_def)

lemma bit_or_single:
  "bit (w OR of_nat (push_bit m (of_bool c)) :: byte) j \<longleftrightarrow> bit w j \<or> (j = m \<and> m < 8 \<and> c)"
  by (cases c) (auto simp: bit_simps)

lemma write_one_bit:
  "getbit (buf[off div 8 := buf ! (off div 8) OR of_nat (push_bit (7 - off mod 8) (drop_bit i v AND 1))]) k
     \<longleftrightarrow> getbit buf k \<or> (k div 8 < length buf \<and> k = off \<and> bit v i)"
proof -
  have one: "drop_bit i v AND 1 = of_bool (bit v i)"
    by (simp add: and_one_eq mod_2_eq_odd flip: bit_iff_odd_drop_bit)
  have same: "7 - k mod 8 = 7 - off mod 8 \<longleftrightarrow> k = off" if "k div 8 = off div 8"
  proof -
    have "k mod 8 < 8" and "off mod 8 < 8"
      by simp_all
    then have "7 - k mod 8 = 7 - off mod 8 \<longleftrightarrow> k mod 8 = off mod 8"
      by arith
    also have "\<dots> \<longleftrightarrow> k = off"
      using that by (metis div_mult_mod_eq)
    finally show ?thesis .
  qed
  show ?thesis
  proof (cases "k div 8 = off div 8 \<and> off div 8 < length buf")
    case True
    have upd: "getbit (buf[off div 8 := w]) k \<longleftrightarrow> bit w (7 - k mod 8)" for w
      using True by (simp add: getbit_def)
    have "getbit (buf[off div 8 := buf ! (off div 8) OR of_nat (push_bit (7 - off mod 8) (drop_bit i v AND 1))]) k
        \<longleftrightarrow> bit (buf ! (off div 8) OR of_nat (push_bit (7 - off mod 8) (of_bool (bit v i)))) (7 - k mod 8)"
      unfolding one by (rule upd)
    also have "\<dots> \<longleftrightarrow> bit (buf ! (off div 8)) (7 - k mod 8)
        \<or> (7 - k mod 8 = 7 - off mod 8 \<and> 7 - off mod 8 < 8 \<and> bit v i)"
      by (rule bit_or_single)
    also have "\<dots> \<longleftrightarrow> getbit buf k \<or> (k div 8 < length buf \<and> k = off \<and> bit v i)"
      using True same by (auto simp: getbit_def)
    finally show ?thesis .
  next
    case False
    then show ?thesis
      by (auto simp: getbit_def)
  qed
qed

lemma getbit_wr:
  "getbit (wr v n off buf) k
     \<longleftrightarrow> getbit buf k \<or> (k div 8 < length buf \<and> off \<le> k \<and> k < off + n \<and> bit v (off + n - 1 - k))"
  unfolding wr_def
proof (induction n arbitrary: buf off)
  case 0
  then show ?case by auto
next
  case (Suc n)
  have "getbit (fst (writeBits v (Suc n) (buf, off))) k
      \<longleftrightarrow> (getbit buf k \<or> (k div 8 < length buf \<and> k = off \<and> bit v n))
        \<or> (k div 8 < length buf \<and> off + 1 \<le> k \<and> k < off + 1 + n \<and> bit v (off + 1 + n - 1 - k))"
    by (simp only: writeBits.simps Let_def Suc.IH write_one_bit length_list_update)
  also have "\<dots> \<longleftrightarrow> getbit buf k
      \<or> (k div 8 < length buf \<and> off \<le> k \<and> k < off + Suc n \<and> bit v (off + Suc n - 1 - k))"
    by (cases "k = off") auto
  finally show ?case .
qed

lemma length_wr [simp]: "length (wr v n off buf) = length buf"
  by (simp add: wr_def writeBits_length)

lemma writeBits_eq: "writeBits v n (buf, off) = (wr v n off buf, off + n)"
  by (simp add: wr_def prod_eq_iff writeBits_snd)

lemma bit_nth_getbit:
  assumes "i < length buf" and "j < 8"
  shows "bit (buf ! i) j \<longleftrightarrow> getbit buf (8 * i + (7 - j))"
proof -
  have "(8 * i + (7 - j)) div 8 = i" and "(8 * i + (7 - j)) mod 8 = 7 - j"
    by simp_all
  moreover have "7 - (7 - j) = j"
    using assms(2) by simp
  ultimately show ?thesis
    using assms(1) by (simp only: getbit_def simp_thms)
qed

lemma Buffer_eqI:
  assumes "length a = length b" and "\<And>k. getbit a k \<longleftrightarrow> getbit b k"
  shows "a = b"
proof (rule nth_equalityI)
  show "length a = length b" by fact
next
  fix i assume i: "i < length a"
  show "a ! i = b ! i"
  proof (rule bit_word_eqI)
    fix j assume "j < LENGTH(8)"
    then have "j < 8" by simp
    with i assms show "bit (a ! i) j \<longleftrightarrow> bit (b ! i) j"
      by (simp add: bit_nth_getbit)
  qed
qed

lemma getbit_zeros [simp]: "\<not> getbit (replicate m 0) k"
  by (simp add: getbit_def)

lemma getbit_in_range: "getbit buf k \<Longrightarrow> k div 8 < length buf"
  by (simp add: getbit_def)

lemma agrees_upto_wr:
  assumes "agrees_upto a b off"
  shows "agrees_upto (wr (rd b n off) n off a) b (off + n)"
proof -
  from assms have len: "length a = length b" and a: "\<And>k. getbit a k \<longleftrightarrow> k < off \<and> getbit b k"
    by (simp_all add: agrees_upto_def)
  have "getbit (wr (rd b n off) n off a) k \<longleftrightarrow> k < off + n \<and> getbit b k" for k
  proof (cases "off \<le> k \<and> k < off + n")
    case True
    then have idx: "off + n - 1 - k < n" "off + n - 1 - (off + n - 1 - k) = k"
      by auto
    have "bit (rd b n off) (off + n - 1 - k) \<longleftrightarrow> getbit b k"
      by (simp only: rd_bit idx simp_thms)
    moreover have "\<not> getbit a k"
      using True by (simp add: a)
    ultimately have "getbit (wr (rd b n off) n off a) k \<longleftrightarrow> k div 8 < length b \<and> getbit b k"
      using True by (simp add: getbit_wr len)
    then show ?thesis
      using True getbit_in_range [of b k] by blast
  next
    case False
    have "getbit (wr (rd b n off) n off a) k \<longleftrightarrow> getbit a k"
      using False by (simp only: getbit_wr) blast
    with False show ?thesis
      by (simp add: a) arith
  qed
  with len show ?thesis
    by (simp add: agrees_upto_def)
qed

lemma agrees_upto_wrs:
  "agrees_upto a b off \<Longrightarrow> agrees_upto (wrs (zip (rds b ns off) ns) off a) b (off + sum_list ns)"
proof (induction ns arbitrary: a off)
  case Nil
  then show ?case by simp
next
  case (Cons n ns)
  from Cons.IH [OF agrees_upto_wr [OF Cons.prems, of n]] show ?case
    by (simp add: add.assoc)
qed

lemma agrees_upto_zeros: "agrees_upto (replicate (length b) 0) b 0"
  by (simp add: agrees_upto_def)

lemma agrees_upto_all:
  assumes "agrees_upto a b t" and "8 * length b \<le> t"
  shows "a = b"
proof (rule Buffer_eqI)
  show "length a = length b"
    using assms by (simp add: agrees_upto_def)
next
  fix k
  have "k < t" if "getbit b k"
    using getbit_in_range [OF that] assms(2) by (simp add: less_mult_imp_div_less)
  with assms(1) show "getbit a k \<longleftrightarrow> getbit b k"
    by (auto simp: agrees_upto_def)
qed

lemma wrs_rds:
  "8 * length b \<le> sum_list ns \<Longrightarrow> wrs (zip (rds b ns 0) ns) 0 (replicate (length b) 0) = b"
  using agrees_upto_all [OF agrees_upto_wrs [OF agrees_upto_zeros [of b], of ns]] by simp

lemma length_wrs [simp]: "length (wrs xs off buf) = length buf"
  by (induction xs arbitrary: off buf) auto

lemma getbit_wrs_below: "k < off \<Longrightarrow> getbit (wrs xs off buf) k \<longleftrightarrow> getbit buf k"
  by (induction xs arbitrary: off buf) (auto simp: getbit_wr)

lemma rd_cong: "(\<And>k. off \<le> k \<Longrightarrow> k < off + n \<Longrightarrow> getbit a k \<longleftrightarrow> getbit b k) \<Longrightarrow> rd a n off = rd b n off"
  by (rule bit_eqI) (auto simp: rd_bit)

lemma clear_from_wr: "clear_from a off \<Longrightarrow> clear_from (wr v n off a) (off + n)"
  by (auto simp: clear_from_def getbit_wr)

lemma nat_high_bits_clear:
  fixes v :: nat
  assumes "v < 2 ^ n" and "n \<le> j"
  shows "\<not> bit v j"
proof -
  have "take_bit n v = v"
    using assms(1) by (rule take_bit_nat_eq_self)
  then have "bit v j \<longleftrightarrow> j < n \<and> bit v j"
    using bit_take_bit_iff [of n v j] by simp
  with assms(2) show ?thesis
    by simp
qed

lemma rd_wr_same:
  assumes "clear_from a off" and "v < 2 ^ n" and "off + n \<le> 8 * length a"
  shows "rd (wr v n off a) n off = v"
proof (rule bit_eqI)
  fix j
  show "bit (rd (wr v n off a) n off) j \<longleftrightarrow> bit v j"
  proof (cases "j < n")
    case True
    then have "off + n - 1 - (off + n - 1 - j) = j" and "off \<le> off + n - 1 - j"
      and "off + n - 1 - j < off + n"
      by auto
    moreover from this assms(3) have "(off + n - 1 - j) div 8 < length a"
      by (simp add: less_mult_imp_div_less)
    ultimately show ?thesis
      using True assms(1) by (simp add: rd_bit getbit_wr clear_from_def)
  next
    case False
    then have "\<not> bit v j"
      using assms(2) by (simp add: nat_high_bits_clear)
    with False show ?thesis
      by (simp add: rd_bit)
  qed
qed

lemma rds_wrs:
  assumes "clear_from a off" and "\<forall>(v, n) \<in> set xs. v < 2 ^ n"
    and "off + sum_list (map snd xs) \<le> 8 * length a"
  shows "rds (wrs xs off a) (map snd xs) off = map fst xs"
  using assms
proof (induction xs arbitrary: a off)
  case Nil
  then show ?case by simp
next
  case (Cons x xs)
  obtain v n where x: "x = (v, n)"
    by (cases x)
  let ?a = "wr v n off a"
  have "rd (wrs xs (off + n) ?a) n off = rd ?a n off"
    by (rule rd_cong) (simp add: getbit_wrs_below)
  also have "\<dots> = v"
    using Cons.prems by (intro rd_wr_same) (simp_all add: x)
  finally have head: "rd (wrs xs (off + n) ?a) n off = v" .
  have tail: "rds (wrs xs (off + n) ?a) (map snd xs) (off + n) = map fst xs"
    using Cons.prems by (intro Cons.IH clear_from_wr) (simp_all add: x add.assoc)
  show ?case
    by (simp add: x head tail)
qed

lemma getbit_clearPadding:
  assumes "length b = 20"
  shows "getbit (clearPadding b) k \<longleftrightarrow> getbit b k \<and> k \<noteq> 48 \<and> k \<noteq> 49"
proof (cases "k div 8 = 6")
  case True
  have m: "(0x3f :: byte) = mask 6"
    by (simp add: mask_eq_exp_minus_1)
  have "k mod 8 < 8"
    by simp
  moreover have "k = 8 * (k div 8) + k mod 8"
    by simp
  ultimately have "7 - k mod 8 < 6 \<longleftrightarrow> k \<noteq> 48 \<and> k \<noteq> 49"
    using True by arith
  then show ?thesis
    using True assms by (auto simp: getbit_def clearPadding_def bit_and_iff m bit_mask_iff)
next
  case False
  then have "k \<noteq> 48" and "k \<noteq> 49"
    by auto
  with False show ?thesis
    by (simp add: getbit_def clearPadding_def)
qed

lemma rd_clearPadding:
  assumes "length b = 20" and "off + n \<le> 48 \<or> 50 \<le> off"
  shows "rd (clearPadding b) n off = rd b n off"
  using assms by (intro rd_cong) (auto simp: getbit_clearPadding)

lemma rd_clearPadding_pad:
  assumes "length b = 20"
  shows "rd (clearPadding b) 2 48 = 0"
  by (rule bit_eqI) (auto simp: rd_bit getbit_clearPadding assms)

lemmas table_defs = encodeChar_def decodeChar_def ENCODE_CHARS_def DECODE_MAP_def
  toLowerCase_def toLowerCase_unit_def ascii_def

lemma upt_32: "[0..<32] = [0, 1, 2, 3, 4, 5, 6, 7, 8, 9, 10, 11, 12, 13, 14, 15, 16, 17, 18, 19, 20,
     21, 22, 23, 24, 25, 26, 27, 28, 29, 30, 31 :: nat]"
  by code_simp

lemma below_32_iff: "(\<forall>v<32. P (v::nat)) \<longleftrightarrow> list_all P [0, 1, 2, 3, 4, 5, 6, 7, 8, 9, 10, 11, 12, 13, 14, 15, 16, 17, 18, 19, 20,
     21, 22, 23, 24, 25, 26, 27, 28, 29, 30, 31]"
  unfolding upt_32 [symmetric] by (auto simp: list_all_iff)

lemma symbol_table: "\<forall>v<32. encodeChar v = [ENCODE_CHARS ! v] \<and> decodeChar [ENCODE_CHARS ! v] = Inr v"
  unfolding below_32_iff by (simp add: table_defs)

lemma alphabet_table:
  "\<forall>c \<in> set ENCODE_CHARS. decodeChar [c] = Inr (symval c) \<and> symval c < 32 \<and> encodeChar (symval c) = [c]"
  by (simp add: symval_def table_defs)

lemma digit_table:
  "\<forall>c \<in> set (ascii ''01234567''). symval c < 8 \<and> c \<in> set ENCODE_CHARS \<and> 0x30 \<le> c \<and> c \<le> 0x37"
  by (simp add: symval_def table_defs)

lemma upt_8: "[0..<8] = [0, 1, 2, 3, 4, 5, 6, 7 :: nat]"
  by code_simp

lemma below_8_iff: "(\<forall>v<8. P (v::nat)) \<longleftrightarrow> list_all P [0, 1, 2, 3, 4, 5, 6, 7]"
  unfolding upt_8 [symmetric] by (auto simp: list_all_iff)

lemma first_symbol_table: "\<forall>v<8. ENCODE_CHARS ! v \<in> set (ascii ''01234567'')"
  unfolding below_8_iff by (simp add: table_defs)

lemma symbols_props:
  "length (symbols b) = 32" "symbols b ! 0 < 8" "i < 32 \<Longrightarrow> symbols b ! i < 32"
proof -
  have five: "rd b 5 off < 32" for off
    using rd_less [of b 5 off] by simp
  have three: "rd b 3 off < 8" for off
    using rd_less [of b 3 off] by simp
  show "length (symbols b) = 32" "symbols b ! 0 < 8"
    by (simp_all add: symbols_def three)
  have "\<forall>v \<in> set (symbols b). v < 32"
    using three [of 0] by (simp add: symbols_def five)
  then show "symbols b ! i < 32" if "i < 32"
    using that \<open>length (symbols b) = 32\<close> by (metis nth_mem)
qed

lemma unsafeEncode_symbols: "unsafeEncode b = map (\<lambda>v. ENCODE_CHARS ! v) (symbols b)"
proof -
  have five: "encodeChar (rd b 5 off) = [ENCODE_CHARS ! rd b 5 off]" for off
    using symbol_table rd_less [of b 5 off] by simp
  have three: "encodeChar (rd b 3 off) = [ENCODE_CHARS ! rd b 3 off]" for off
    using symbol_table rd_less [of b 3 off] by simp
  show ?thesis
    by (simp add: unsafeEncode_def readBits_eq symbols_def five three)
qed

lemma unsafeDecode_fields:
  assumes "\<And>i. i < 32 \<Longrightarrow> decodeCharAt cs i = Inr (f i)"
  shows "unsafeDecode cs = Inr (wrs (fields f) 0 (replicate 20 0))"
  by (simp add: unsafeDecode_def assms andThen_def writeBits_eq fields_def)

lemma decodeCharAt_unsafeEncode:
  assumes "i < 32"
  shows "decodeCharAt (unsafeEncode b) i = Inr (symbols b ! i)"
  using assms symbol_table symbols_props(3) [OF assms, where b = b]
  by (simp add: decodeCharAt_def unsafeEncode_symbols symbols_props(1))

lemma fields_symbols:
  assumes "length b = 20"
  shows "fields ((!) (symbols b)) = zip (rds (clearPadding b) widths 0) widths"
  by (simp add: fields_def symbols_def widths_def rd_clearPadding rd_clearPadding_pad assms)

lemma unsafeDecode_unsafeEncode:
  assumes "length b = 20"
  shows "unsafeDecode (unsafeEncode b) = Inr (clearPadding b)"
proof -
  have "unsafeDecode (unsafeEncode b) = Inr (wrs (fields ((!) (symbols b))) 0 (replicate 20 0))"
    by (rule unsafeDecode_fields) (rule decodeCharAt_unsafeEncode)
  also have "wrs (fields ((!) (symbols b))) 0 (replicate 20 0)
      = wrs (zip (rds (clearPadding b) widths 0) widths) 0 (replicate (length (clearPadding b)) 0)"
    by (simp add: fields_symbols assms clearPadding_def)
  also have "\<dots> = clearPadding b"
    by (rule wrs_rds) (simp add: clearPadding_def assms widths_def)
  finally show ?thesis .
qed

lemma isPfid_iff:
  "isPfid s \<longleftrightarrow> length s = 32 \<and> s ! 0 \<in> set (ascii ''01234567'') \<and> (\<forall>c \<in> set s. c \<in> set ENCODE_CHARS)"
proof (cases s)
  case Nil
  then show ?thesis
    by (simp add: isPfid_def)
next
  case (Cons c cs)
  have "c \<in> set ENCODE_CHARS" "0x30 \<le> c" "c \<le> 0x37" if "c \<in> set (ascii ''01234567'')"
    using that digit_table by blast+
  then show ?thesis
    unfolding isPfid_def validPattern_test_def Cons
    by (auto simp: ENCODE_CHARS_def not_less)
qed

lemma isPfid_unsafeEncode: "isPfid (unsafeEncode b)"
proof -
  have "length ENCODE_CHARS = 32"
    by (simp add: ENCODE_CHARS_def ascii_def)
  then have "ENCODE_CHARS ! v \<in> set ENCODE_CHARS" if "v < 32" for v
    using that by (metis nth_mem)
  then have "\<forall>c \<in> set (unsafeEncode b). c \<in> set ENCODE_CHARS"
    using symbols_props(1) [of b] symbols_props(3) [where b = b]
    by (auto simp: unsafeEncode_symbols in_set_conv_nth)
  moreover have "unsafeEncode b ! 0 \<in> set (ascii ''01234567'')"
    using first_symbol_table symbols_props(1,2) [of b] by (simp add: unsafeEncode_symbols)
  ultimately show ?thesis
    by (simp add: isPfid_iff unsafeEncode_symbols symbols_props(1))
qed

lemma unsafeEncode_clearPadding:
  assumes "length b = 20"
  shows "unsafeEncode (clearPadding b) = unsafeEncode b"
  by (simp add: unsafeEncode_symbols symbols_def rd_clearPadding assms)

lemma encode_eq: "length b = 20 \<Longrightarrow> encode b = Inr (unsafeEncode b)"
  by (simp add: encode_def isPfid_unsafeEncode)

lemma decode_unsafeEncode:
  assumes "length b = 20"
  shows "decode (unsafeEncode b) = Inr (clearPadding b)"
proof -
  have "isPfid (unsafeEncode b)"
    by (rule isPfid_unsafeEncode)
  then have "length (unsafeEncode b) = 32" and "unsafeEncode b ! 0 \<in> set (ascii ''01234567'')"
    by (simp_all add: isPfid_iff)
  then have "\<not> (unsafeEncode b ! 0 < 0x30 \<or> unsafeEncode b ! 0 > 0x37)"
    using digit_table by (auto simp: not_less)
  with \<open>length (unsafeEncode b) = 32\<close> show ?thesis
    by (simp add: decode_def unsafeDecode_unsafeEncode assms)
qed

section \<open>Numbers, bytes and the 32-bit operators\<close>

lemma word_of_int_and_mask:
  fixes x :: int
  assumes "0 \<le> x" and "x < 2 ^ n"
  shows "(word_of_int x :: 'a::len word) AND mask n = word_of_int x"
proof -
  have "take_bit n x = x"
    using assms by (simp add: take_bit_int_eq_self)
  then have "(word_of_int x :: 'a word) = word_of_int (take_bit n x)"
    by simp
  also have "\<dots> = take_bit n (word_of_int x)"
    by (simp add: take_bit_of_int)
  also have "\<dots> = word_of_int x AND mask n"
    by (simp add: take_bit_eq_mask)
  finally show ?thesis
    by simp
qed

lemma toUint8_and_0x3f:
  assumes "0 \<le> x" and "x < 64"
  shows "toUint8 x AND 0x3f = toUint8 x"
proof -
  have "(0x3f :: byte) = mask 6"
    by (simp add: mask_eq_exp_minus_1)
  with word_of_int_and_mask [of x 6, where 'a = 8] assms show ?thesis
    by (simp add: toUint8_def)
qed

lemma js_and_partition_mask:
  assumes "0 \<le> x" and "x < 2 ^ 30"
  shows "js_and x 0x3fffffff = x"
proof -
  have m: "(0x3fffffff :: 32 word) = mask 30"
    by (simp add: mask_eq_exp_minus_1)
  have "(word_of_int x :: 32 word) AND word_of_int 0x3fffffff = word_of_int x"
    using word_of_int_and_mask [of x 30, where 'a = 32] assms by (simp add: m)
  moreover have "sint (word_of_int x :: 32 word) = x"
    using assms by (simp add: signed_of_int signed_take_bit_int_eq_self)
  ultimately show ?thesis
    by (simp add: js_and_def)
qed

lemma uint_toUint8: "0 \<le> x \<Longrightarrow> x < 256 \<Longrightarrow> uint (toUint8 x) = x"
  by (simp add: toUint8_def uint_word_of_int)

lemma readUInt32BE_writeUInt32BE:
  assumes "0 \<le> v" and "v < 2 ^ 32"
  shows "readUInt32BE (writeUInt32BE v) 0 = v"
proof -
  define b0 b1 b2 b3 where "b0 = v div 16777216 mod 256" and "b1 = v div 65536 mod 256"
    and "b2 = v div 256 mod 256" and "b3 = v mod 256"
  define m2 m3 where "m2 = v mod 65536" and "m3 = v mod 16777216"
  have low: "uint (toUint8 x) = x mod 256" for x
    by (simp add: toUint8_def uint_word_of_int)
  have bytes: "readUInt32BE (writeUInt32BE v) 0 = b0 * 16777216 + b1 * 65536 + b2 * 256 + b3"
    by (simp add: readUInt32BE_def writeUInt32BE_def low b0_def b1_def b2_def b3_def)
  have "v div 16777216 mod 256 = v div 16777216"
    using assms by (intro mod_pos_pos_trivial) simp_all
  then have top: "v = 16777216 * b0 + m3"
    by (simp add: b0_def m3_def)
  have mid: "m3 = 65536 * b1 + m2"
    using zmod_zmult2_eq [of 256 v 65536] by (simp add: b1_def m2_def m3_def)
  have bot: "m2 = 256 * b2 + b3"
    using zmod_zmult2_eq [of 256 v 256] by (simp add: b2_def b3_def m2_def)
  from bytes top mid bot show ?thesis
    by linarith
qed


lemma toUint8_js_and_0xff: "toUint8 (js_and x 0xff) = word_of_int x"
proof -
  have m: "(0xff :: 32 word) = mask 8"
    by (simp add: mask_eq_exp_minus_1)
  show ?thesis
    unfolding toUint8_def js_and_def
    by (rule bit_word_eqI) (auto simp add: m bit_simps)
qed

lemma toUint8_js_shr:
  assumes "k \<le> 24"
  shows "toUint8 (js_and (js_shr x k) 0xff) = word_of_int (x div 2 ^ k)"
proof -
  have "(word_of_int (js_shr x k) :: byte) = word_of_int (drop_bit k x)"
    unfolding js_shr_def using assms
    by (intro bit_word_eqI) (auto simp add: bit_simps)
  then show ?thesis
    by (simp add: toUint8_js_and_0xff drop_bit_eq_div)
qed

section \<open>Packed binaries\<close>

lemma generateBinaryWithTimestamp_layout:
  assumes "isValidPartition p" and "isValidTimestamp t"
  shows "generateBinaryWithTimestamp p t r =
    Inr (map word_of_int [t div 2 ^ 40, t div 2 ^ 32, t div 2 ^ 24, t div 2 ^ 16, t div 2 ^ 8, t,
                          p div 2 ^ 24, p div 2 ^ 16, p div 2 ^ 8, p] @ take 10 r)"
  using assms toUint8_js_shr [of 24 t] toUint8_js_shr [of 16 t] toUint8_js_shr [of 8 t]
  by (simp add: generateBinaryWithTimestamp_def toUint8_js_and_0xff [unfolded toUint8_def]
      writeUInt32BE_def toUint8_def)

lemma packed_props:
  assumes "isValidPartition p" and "isValidTimestamp t" and "length r = 10"
    and "generateBinaryWithTimestamp p t r = Inr b"
  shows "length b = 20" and "clearPadding b = b" and "readUInt32BE b 6 = p"
proof -
  from assms(1) have p: "0 \<le> p" "p < 2 ^ 30"
    by (simp_all add: isValidPartition_def MAX_PARTITION_def)
  have b: "b = map word_of_int [t div 2 ^ 40, t div 2 ^ 32, t div 2 ^ 24, t div 2 ^ 16,
      t div 2 ^ 8, t] @ writeUInt32BE p @ r"
    using assms generateBinaryWithTimestamp_layout [OF assms(1,2), of r]
    by (simp add: writeUInt32BE_def toUint8_def)
  show "length b = 20"
    by (simp add: b writeUInt32BE_def assms(3))
  have "b ! 6 = toUint8 (p div 2 ^ 24)"
    by (simp add: b writeUInt32BE_def)
  moreover have "toUint8 (p div 2 ^ 24) AND 0x3f = toUint8 (p div 2 ^ 24)"
    using p by (intro toUint8_and_0x3f) simp_all
  ultimately show "clearPadding b = b"
    unfolding clearPadding_def by (metis list_update_id)
  have "readUInt32BE b 6 = readUInt32BE (writeUInt32BE p) 0"
    by (simp add: b readUInt32BE_def writeUInt32BE_def nth_append)
  also have "\<dots> = p"
    using p by (intro readUInt32BE_writeUInt32BE) simp_all
  finally show "readUInt32BE b 6 = p" .
qed

section \<open>Encoding a decoded text\<close>

lemma unsafeEncode_unsafeDecode:
  assumes "isPfid cs"
  shows "\<exists>b. unsafeDecode cs = Inr b \<and> length b = 20 \<and> unsafeEncode b = cs"
proof -
  from assms have len: "length cs = 32" and first: "cs ! 0 \<in> set (ascii ''01234567'')"
    and all: "\<And>i. i < 32 \<Longrightarrow> cs ! i \<in> set ENCODE_CHARS"
    by (simp_all add: isPfid_iff)
  define f where "f i = symval (cs ! i)" for i
  define F where "F = wrs (fields f) 0 (replicate 20 0)"
  have dec: "decodeCharAt cs i = Inr (f i)" if "i < 32" for i
    using that all [OF that] alphabet_table by (simp add: decodeCharAt_def len f_def)
  have f32: "f i < 32" if "i < 32" for i
    using all [OF that] alphabet_table by (simp add: f_def)
  have f8: "f 0 < 8"
    using first digit_table by (simp add: f_def)
  have sym: "ENCODE_CHARS ! f i = cs ! i" if "i < 32" for i
    using all [OF that] alphabet_table symbol_table f32 [OF that] by (auto simp: f_def)
  have "unsafeDecode cs = Inr F"
    unfolding F_def using dec by (rule unsafeDecode_fields)
  moreover have "length F = 20"
    by (simp add: F_def)
  moreover have "unsafeEncode F = cs"
  proof -
    have "rds F (map snd (fields f)) 0 = map fst (fields f)"
      unfolding F_def
      by (rule rds_wrs) (simp_all add: clear_from_def fields_def f8 f32)
    then have "symbols F = map f [0..<32]"
      by (simp add: fields_def symbols_def upt_32)
    then have "unsafeEncode F = map (\<lambda>i. cs ! i) [0..<32]"
      by (simp add: unsafeEncode_symbols sym)
    also have "\<dots> = cs"
      using len map_nth [of cs] by simp
    finally show ?thesis .
  qed
  ultimately show ?thesis
    by blast
qed

section \<open>The partition bytes of a decoded text\<close>

lemma byte_eqI:
  fixes a b :: byte
  assumes "bit a 0 = bit b 0" "bit a 1 = bit b 1" "bit a 2 = bit b 2" "bit a 3 = bit b 3"
    "bit a 4 = bit b 4" "bit a 5 = bit b 5" "bit a 6 = bit b 6" "bit a 7 = bit b 7"
  shows "a = b"
proof (rule bit_word_eqI)
  fix j assume "j < LENGTH(8)"
  then have "j \<in> set [0..<8]"
    by simp
  then have "j \<in> {0, 1, 2, 3, 4, 5, 6, 7}"
    unfolding upt_8 by simp
  with assms show "bit a j = bit b j"
    by auto
qed

lemma symbol_high_bits: "v < 32 \<Longrightarrow> 5 \<le> j \<Longrightarrow> bit (v::nat) j = False"
  using nat_high_bits_clear [of v 5 j] by simp

lemma bit_times_2: "bit (v * 2 :: nat) n \<longleftrightarrow> n \<noteq> 0 \<and> bit v (n - 1)"
  using bit_double_iff [of v n] by (simp add: mult.commute)

lemma partition_bytes:
  assumes "\<And>i. i < 32 \<Longrightarrow> f i < 32"
  defines "F \<equiv> wrs (fields f) 0 (replicate 20 0)"
  shows "F ! 6 = of_nat (push_bit 6 0 OR push_bit 1 (f 10) OR drop_bit 4 (f 11))"
    and "F ! 7 = of_nat (push_bit 4 (f 11 AND 0x0f) OR drop_bit 1 (f 12))"
    and "F ! 8 = of_nat (push_bit 7 (f 12 AND 0x01) OR push_bit 2 (f 13) OR drop_bit 3 (f 14))"
    and "F ! 9 = of_nat (push_bit 5 (f 14 AND 0x07) OR drop_bit 0 (f 15))"
  unfolding F_def
  by (rule byte_eqI;
      simp add: bit_nth_getbit fields_def getbit_wr bit_simps bit_times_2 symbol_high_bits assms
        numeral_2_eq_2 [symmetric] numeral_3_eq_3 [symmetric]
        bit_0 [where ?'a = nat, symmetric])+

lemma js_and_mask30: "js_and x 0x3fffffff = x mod 2 ^ 30"
proof -
  have m: "(0x3fffffff :: 32 word) = mask 30"
    by (simp add: mask_eq_exp_minus_1)
  have "sint ((word_of_int x :: 32 word) AND mask 30) = take_bit 30 x"
    by (rule bit_eqI) (auto simp add: bit_simps)
  then show ?thesis
    by (simp add: js_and_def m take_bit_eq_mod)
qed

lemma decode_isPfid:
  assumes "isPfid s" and "unsafeDecode s = Inr b"
  shows "decode s = Inr b"
proof -
  from assms have "length s = 32" and "s ! 0 \<in> set (ascii ''01234567'')"
    by (simp_all add: isPfid_iff)
  then have "\<not> (s ! 0 < 0x30 \<or> s ! 0 > 0x37)"
    using digit_table by (auto simp: not_less)
  then show ?thesis
    using \<open>length s = 32\<close> assms(2) by (simp add: decode_def)
qed

lemma unsafeDecode_isPfid:
  assumes "isPfid s"
  shows "unsafeDecode s = Inr (wrs (fields (\<lambda>i. symval (s ! i))) 0 (replicate 20 0))"
proof (rule unsafeDecode_fields)
  fix i :: nat assume "i < 32"
  with assms have "i < length s" and "s ! i \<in> set ENCODE_CHARS"
    by (simp_all add: isPfid_iff)
  then show "decodeCharAt s i = Inr (symval (s ! i))"
    using alphabet_table by (simp add: decodeCharAt_def)
qed

lemma decodePartition_isPfid:
  assumes "isPfid s"
  shows "decodePartition (substring s 10 16)
    = Inr (js_and (readUInt32BE (wrs (fields (\<lambda>i. symval (s ! i))) 0 (replicate 20 0)) 6) 0x3fffffff)"
proof -
  define f where "f = (\<lambda>i. symval (s ! i))"
  from assms have len: "length s = 32" and all: "\<And>i. i < 32 \<Longrightarrow> s ! i \<in> set ENCODE_CHARS"
    by (simp_all add: isPfid_iff)
  have f32: "f i < 32" if "i < 32" for i
    using all [OF that] alphabet_table by (simp add: f_def)
  have sub: "length (substring s 10 16) = 6"
    by (simp add: substring_def len)
  have dec: "decodeCharAt (substring s 10 16) i = Inr (f (10 + i))" if "i < 6" for i
  proof -
    have "substring s 10 16 ! i = s ! (10 + i)"
      using that by (simp add: substring_def len)
    moreover have "s ! (10 + i) \<in> set ENCODE_CHARS"
      using that by (intro all) simp
    ultimately show ?thesis
      using that alphabet_table by (simp add: decodeCharAt_def sub f_def)
  qed
  have "decodePartition (substring s 10 16)
      = Inr (js_and (readUInt32BE
          [of_nat (push_bit 6 0 OR push_bit 1 (f 10) OR drop_bit 4 (f 11)),
           of_nat (push_bit 4 (f 11 AND 0x0f) OR drop_bit 1 (f 12)),
           of_nat (push_bit 7 (f 12 AND 0x01) OR push_bit 2 (f 13) OR drop_bit 3 (f 14)),
           of_nat (push_bit 5 (f 14 AND 0x07) OR drop_bit 0 (f 15))] 0) 0x3fffffff)"
    using dec [of 0] dec [of 1] dec [of 2] dec [of 3] dec [of 4] dec [of 5]
    by (simp add: decodePartition_def sub andThen_def del: push_bit_of_Suc_0 drop_bit_of_Suc_0)
  also have "readUInt32BE
          [of_nat (push_bit 6 0 OR push_bit 1 (f 10) OR drop_bit 4 (f 11)),
           of_nat (push_bit 4 (f 11 AND 0x0f) OR drop_bit 1 (f 12)),
           of_nat (push_bit 7 (f 12 AND 0x01) OR push_bit 2 (f 13) OR drop_bit 3 (f 14)),
           of_nat (push_bit 5 (f 14 AND 0x07) OR drop_bit 0 (f 15))] 0
      = readUInt32BE (wrs (fields f) 0 (replicate 20 0)) 6"
    by (simp add: readUInt32BE_def partition_bytes [of f, OF f32])
  finally show ?thesis
    unfolding f_def .
qed

section \<open>Evaluating reads on a given buffer\<close>

lemma rd_0: "rd b 0 off = 0"
  by (simp add: rd_def readBits_def)

lemma rd_Suc: "rd b (Suc n) off = 2 * rd b n off + of_bool (getbit b (off + n))"
proof -
  have "rd b (Suc n) off = push_bit 1 (rd b n off) OR of_bool (getbit b (off + n))"
  proof (rule bit_eqI)
    fix j
    show "bit (rd b (Suc n) off) j
        \<longleftrightarrow> bit (push_bit 1 (rd b n off) OR of_bool (getbit b (off + n))) j"
    proof (cases j)
      case 0
      then show ?thesis
        by (simp add: rd_bit bit_simps bit_times_2)
    next
      case (Suc i)
      then show ?thesis
        by (simp add: rd_bit bit_simps bit_times_2)
    qed
  qed
  also have "\<dots> = 2 * rd b n off + of_bool (getbit b (off + n))"
    by (cases "getbit b (off + n)") (simp_all add: or_Suc_0_eq)
  finally show ?thesis .
qed

lemma rd_numeral:
  "rd b (numeral k) off = 2 * rd b (pred_numeral k) off + of_bool (getbit b (off + pred_numeral k))"
  by (simp add: numeral_eq_Suc rd_Suc)

lemma rd_Suc_0: "rd b (Suc 0) off = of_bool (getbit b off)"
  using rd_Suc [of b 0 off] by (simp add: rd_0)

lemmas rd_eval = rd_numeral rd_Suc_0 rd_0 getbit_def

section \<open>The codec on packed binaries\<close>

lemma packed_codec:
  assumes "isValidPartition p" and "isValidTimestamp t" and "length r = 10"
    and gen: "generateBinaryWithTimestamp p t r = Inr b"
  shows "encode b = Inr (unsafeEncode b)"
    and "decode (unsafeEncode b) = Inr b"
    and "extractPartition (unsafeEncode b) = Inr p"
    and "generateWithTimestamp p t r = Inr (unsafeEncode b)"
proof -
  note props = packed_props [OF assms]
  from assms(1) have p: "0 \<le> p" "p < 2 ^ 30"
    by (simp_all add: isValidPartition_def MAX_PARTITION_def)
  let ?s = "unsafeEncode b"
  have valid_text: "isPfid ?s"
    by (rule isPfid_unsafeEncode)
  show "encode b = Inr ?s"
    using props(1) by (rule encode_eq)
  show "decode ?s = Inr b"
    using decode_unsafeEncode [OF props(1)] props(2) by simp
  have "unsafeDecode ?s = Inr b"
    using unsafeDecode_unsafeEncode [OF props(1)] props(2) by simp
  then have "wrs (fields (\<lambda>i. symval (?s ! i))) 0 (replicate 20 0) = b"
    using unsafeDecode_isPfid [OF valid_text] by simp
  then have "decodePartition (substring ?s 10 16) = Inr (readUInt32BE b 6 mod 2 ^ 30)"
    using decodePartition_isPfid [OF valid_text] by (simp only: js_and_mask30)
  moreover have "readUInt32BE b 6 mod 2 ^ 30 = p"
    using p by (simp add: props(3))
  ultimately show "extractPartition ?s = Inr p"
    using valid_text by (simp add: extractPartition_def)
  show "generateWithTimestamp p t r = Inr ?s"
    using assms(1,2) gen by (simp add: generateWithTimestamp_def andThen_def)
qed

lemma scenario_binary:
  "generateBinaryWithTimestamp 123456789 1234567890000 [0, 0, 0, 0, 0, 0, 0, 0, 0, 0]
     = Inr [0x01, 0x1F, 0x71, 0xFB, 0x04, 0x50, 0x07, 0x5B, 0xCD, 0x15,
            0, 0, 0, 0, 0, 0, 0, 0, 0, 0]"
  by (simp add: generateBinaryWithTimestamp_layout isValidPartition_def isValidTimestamp_def
      MAX_PARTITION_def MAX_TIMESTAMP_def)

lemma scenario_text:
  "unsafeEncode [0x01, 0x1F, 0x71, 0xFB, 0x04, 0x50, 0x07, 0x5B, 0xCD, 0x15,
                 0, 0, 0, 0, 0, 0, 0, 0, 0, 0]
     = ascii ''013xrzp12g3nqk8n0000000000000000''"
  by (simp add: unsafeEncode_symbols symbols_def rd_eval ENCODE_CHARS_def ascii_def)

section \<open>Characters other than the lower-case alphabet\<close>

lemma decodeChar_uppercase:
  "\<forall>c \<in> set (ascii ''ABCDEFGHJKMNPQRSTVWXYZ'').
     decodeChar [c] = decodeChar [c + 0x20] \<and> c + 0x20 \<in> set ENCODE_CHARS"
  by (simp add: table_defs)

lemma kelvin_symbols:
  "\<forall>i<32. decodeCharAt (0x30 # 0x212A # ascii ''000000000000000000000000000000'') i
       = Inr (if i = 1 then 19 else 0)
     \<and> decodeCharAt (ascii ''0k000000000000000000000000000000'') i
       = Inr (if i = 1 then 19 else 0)"
  unfolding below_32_iff by (simp add: decodeCharAt_def table_defs)

lemma kelvin_text:
  "unsafeEncode [0x13, 0, 0, 0, 0, 0, 0, 0, 0, 0, 0, 0, 0, 0, 0, 0, 0, 0, 0, 0]
     = ascii ''0k000000000000000000000000000000''"
  by (simp add: unsafeEncode_symbols symbols_def rd_eval ENCODE_CHARS_def ascii_def)

section \<open>Claims\<close>

subsection \<open>Round trip of packed binaries\<close>

text \<open>
  Claim C1. For every partition \<open>p\<close> in \<open>[0, 2^30 - 1]\<close>, timestamp \<open>t\<close> in
  \<open>[0, 2^48 - 1]\<close> and ten bytes \<open>r\<close> of randomness, packing succeeds and gives the
  20 bytes of the big-endian layout (timestamp, partition, randomness); encoding that
  binary succeeds with a text of 32 characters, and decoding the text returns exactly the
  packed binary.
\<close>

theorem packed_roundtrip:
  assumes "0 \<le> p" and "p \<le> 2 ^ 30 - 1" and "0 \<le> t" and "t \<le> 2 ^ 48 - 1" and "length r = 10"
  shows "\<exists>b s. generateBinaryWithTimestamp p t r = Inr b
      \<and> b = map word_of_int [t div 2 ^ 40, t div 2 ^ 32, t div 2 ^ 24, t div 2 ^ 16, t div 2 ^ 8, t,
                             p div 2 ^ 24, p div 2 ^ 16, p div 2 ^ 8, p] @ r
      \<and> encode b = Inr s \<and> length s = 32 \<and> decode s = Inr b"
proof -
  have valid: "isValidPartition p" "isValidTimestamp t"
    using assms by (simp_all add: isValidPartition_def isValidTimestamp_def MAX_PARTITION_def
        MAX_TIMESTAMP_def)
  define b where "b = map word_of_int [t div 2 ^ 40, t div 2 ^ 32, t div 2 ^ 24, t div 2 ^ 16,
      t div 2 ^ 8, t, p div 2 ^ 24, p div 2 ^ 16, p div 2 ^ 8, p] @ r"
  have gen: "generateBinaryWithTimestamp p t r = Inr b"
    using generateBinaryWithTimestamp_layout [OF valid, of r] assms(5) by (simp add: b_def)
  note codec = packed_codec [OF valid assms(5) gen]
  have "length (unsafeEncode b) = 32"
    using isPfid_unsafeEncode [of b] by (simp add: isPfid_iff)
  with gen codec(1,2) show ?thesis
    using b_def by blast
qed

theorem packed_roundtrip_witness:
  "\<exists>b s. generateBinaryWithTimestamp 123456789 1234567890000 (replicate 10 0) = Inr b
      \<and> encode b = Inr s \<and> length s = 32 \<and> decode s = Inr b"
  using packed_roundtrip [of 123456789 1234567890000 "replicate 10 0"] by simp

subsection \<open>The documented example\<close>

text \<open>
  Claim C2, as amended. Packing timestamp 1234567890000, partition 123456789 and ten zero
  bytes of randomness yields the 20 bytes
  \<open>01 1F 71 FB 04 50 07 5B CD 15 00 00 00 00 00 00 00 00 00 00\<close>; encoding them yields
  the text \<open>013xrzp12g3nqk8n0000000000000000\<close>, which \<open>isPfid\<close> accepts, whose
  partition is extracted as 123456789, and which decodes to the same 20 bytes, so
  that encoding the decoded binary gives the same text again.
\<close>

theorem concrete_scenario:
  "generateBinaryWithTimestamp 123456789 1234567890000 [0, 0, 0, 0, 0, 0, 0, 0, 0, 0]
     = Inr [0x01, 0x1F, 0x71, 0xFB, 0x04, 0x50, 0x07, 0x5B, 0xCD, 0x15,
            0, 0, 0, 0, 0, 0, 0, 0, 0, 0]
   \<and> encode [0x01, 0x1F, 0x71, 0xFB, 0x04, 0x50, 0x07, 0x5B, 0xCD, 0x15,
             0, 0, 0, 0, 0, 0, 0, 0, 0, 0]
       = Inr (ascii ''013xrzp12g3nqk8n0000000000000000'')
   \<and> isPfid (ascii ''013xrzp12g3nqk8n0000000000000000'')
   \<and> extractPartition (ascii ''013xrzp12g3nqk8n0000000000000000'') = Inr 123456789
   \<and> decode (ascii ''013xrzp12g3nqk8n0000000000000000'')
       = Inr [0x01, 0x1F, 0x71, 0xFB, 0x04, 0x50, 0x07, 0x5B, 0xCD, 0x15,
              0, 0, 0, 0, 0, 0, 0, 0, 0, 0]"
proof -
  have valid: "isValidPartition 123456789" "isValidTimestamp 1234567890000"
    by (simp_all add: isValidPartition_def isValidTimestamp_def MAX_PARTITION_def
        MAX_TIMESTAMP_def)
  have len: "length [0, 0, 0, 0, 0, 0, 0, 0, 0, 0 :: byte] = 10"
    by simp
  note codec = packed_codec [OF valid len scenario_binary, unfolded scenario_text]
  have "isPfid (ascii ''013xrzp12g3nqk8n0000000000000000'')"
    using isPfid_unsafeEncode [of "[0x01, 0x1F, 0x71, 0xFB, 0x04, 0x50, 0x07, 0x5B, 0xCD, 0x15,
            0, 0, 0, 0, 0, 0, 0, 0, 0, 0]"] by (simp only: scenario_text)
  with scenario_binary codec(1-3) show ?thesis
    by (simp only: simp_thms)
qed

text \<open>
  The 20 bytes the claim lists, \<open>00 00 01 1F 71 FB 07 07 5B CD 15\<close> followed by nine zero
  bytes, are not what packing yields: the six timestamp bytes of 1234567890000 =
  \<open>0x011F71FB0450\<close> are \<open>01 1F 71 FB 04 50\<close>.
\<close>

theorem concrete_scenario_counterexample:
  "generateBinaryWithTimestamp 123456789 1234567890000 [0, 0, 0, 0, 0, 0, 0, 0, 0, 0]
     \<noteq> Inr [0x00, 0x00, 0x01, 0x1F, 0x71, 0xFB, 0x07, 0x07, 0x5B, 0xCD, 0x15,
             0, 0, 0, 0, 0, 0, 0, 0, 0]"
  by (simp add: scenario_binary)

subsection \<open>The text validator\<close>

text \<open>
  Claim C3, as amended. \<open>isPfid\<close> returns true exactly for the strings of 32 characters
  whose first character is one of \<open>0\<close> to \<open>7\<close> and whose every character is in the
  lower-case Crockford alphabet \<open>0123456789abcdefghjkmnpqrstvwxyz\<close>: the check is
  case-sensitive.
\<close>

theorem isPfid_lowercase_only:
  "isPfid s \<longleftrightarrow>
     length s = 32
     \<and> s ! 0 \<in> set (ascii ''01234567'')
     \<and> (\<forall>c \<in> set s. c \<in> set (ascii ''0123456789abcdefghjkmnpqrstvwxyz''))"
  by (simp add: isPfid_iff ENCODE_CHARS_def)

theorem isPfid_lowercase_only_witness:
  "isPfid (ascii ''01an4z07byd9df0k79ka1307sr9x4mv3'')"
  using isPfid_lowercase_only [of "ascii ''01an4z07byd9df0k79ka1307sr9x4mv3''"]
  by (simp add: ascii_def)

text \<open>
  The claim as written asks for a case-insensitive check, under which replacing a letter
  of an accepted string by its upper-case form gives an accepted string. The first string
  below is accepted; the second is the first with its letter \<open>a\<close> written \<open>A\<close>, and is
  rejected.
\<close>

theorem isPfid_uppercase_counterexample:
  "isPfid (ascii ''0a000000000000000000000000000000'')
   \<and> \<not> isPfid (ascii ''0A000000000000000000000000000000'')"
  by (simp add: isPfid_def validPattern_test_def ascii_def)

subsection \<open>Round trip of valid texts\<close>

text \<open>
  Claim C4. For every string \<open>s\<close> that \<open>isPfid\<close> accepts, \<open>decode s\<close> succeeds with a
  binary of 20 bytes, and encoding that binary succeeds and returns \<open>s\<close> itself.
\<close>

theorem text_roundtrip:
  assumes "isPfid s"
  shows "\<exists>b. decode s = Inr b \<and> length b = 20 \<and> encode b = Inr s"
proof -
  obtain b where b: "unsafeDecode s = Inr b" "length b = 20" "unsafeEncode b = s"
    using unsafeEncode_unsafeDecode [OF assms] by blast
  have "decode s = Inr b"
    using assms b(1) by (rule decode_isPfid)
  moreover have "encode b = Inr s"
    using encode_eq [OF b(2)] b(3) by simp
  ultimately show ?thesis
    using b(2) by blast
qed

theorem text_roundtrip_witness:
  "isPfid (ascii ''01an4z07byd9df0k79ka1307sr9x4mv3'')
   \<and> (\<exists>b. decode (ascii ''01an4z07byd9df0k79ka1307sr9x4mv3'') = Inr b \<and> length b = 20
          \<and> encode b = Inr (ascii ''01an4z07byd9df0k79ka1307sr9x4mv3''))"
proof -
  have "isPfid (ascii ''01an4z07byd9df0k79ka1307sr9x4mv3'')"
    by (simp add: isPfid_def validPattern_test_def ascii_def)
  then show ?thesis
    using text_roundtrip [of "ascii ''01an4z07byd9df0k79ka1307sr9x4mv3''"] by simp
qed

subsection \<open>Partition of a generated identifier\<close>

text \<open>
  Claim C5. For every partition \<open>p\<close> in \<open>[0, 2^30 - 1]\<close>, timestamp \<open>t\<close> in
  \<open>[0, 2^48 - 1]\<close> and ten bytes \<open>r\<close> of randomness, \<open>extractPartition\<close> applied to the
  encoding of the binary packed from them (the text \<open>generateWithTimestamp\<close> returns)
  succeeds and returns exactly \<open>p\<close>.
\<close>

theorem extractPartition_packed:
  assumes "0 \<le> p" and "p \<le> 2 ^ 30 - 1" and "0 \<le> t" and "t \<le> 2 ^ 48 - 1" and "length r = 10"
  shows "\<exists>b s. generateBinaryWithTimestamp p t r = Inr b \<and> encode b = Inr s
      \<and> generateWithTimestamp p t r = Inr s \<and> extractPartition s = Inr p"
proof -
  have valid: "isValidPartition p" "isValidTimestamp t"
    using assms by (simp_all add: isValidPartition_def isValidTimestamp_def MAX_PARTITION_def
        MAX_TIMESTAMP_def)
  obtain b where gen: "generateBinaryWithTimestamp p t r = Inr b"
    using generateBinaryWithTimestamp_layout [OF valid] by blast
  from gen packed_codec [OF valid assms(5) gen] show ?thesis
    by blast
qed

theorem extractPartition_packed_witness:
  "\<exists>b s. generateBinaryWithTimestamp 123456789 1234567890000 (replicate 10 0) = Inr b
      \<and> encode b = Inr s
      \<and> generateWithTimestamp 123456789 1234567890000 (replicate 10 0) = Inr s
      \<and> extractPartition s = Inr 123456789"
  using extractPartition_packed [of 123456789 1234567890000 "replicate 10 0"] by simp

subsection \<open>The two ways to the partition\<close>

text \<open>
  Claim C6. For every string \<open>s\<close> that \<open>isPfid\<close> accepts, decoding the six characters
  at offsets 10 to 15 with \<open>decodePartition\<close> gives the same partition as decoding \<open>s\<close>
  in full and reading bytes 6 to 9 of the binary as a big-endian 32-bit integer reduced to
  its low 30 bits; \<open>extractPartition\<close> returns that value.
\<close>

theorem partition_paths_agree:
  assumes "isPfid s"
  shows "\<exists>b. decode s = Inr b
      \<and> decodePartition (substring s 10 16) = Inr (readUInt32BE b 6 mod 2 ^ 30)
      \<and> extractPartition s = Inr (readUInt32BE b 6 mod 2 ^ 30)"
proof -
  let ?b = "wrs (fields (\<lambda>i. symval (s ! i))) 0 (replicate 20 0)"
  have "decode s = Inr ?b"
    using assms unsafeDecode_isPfid [OF assms] by (rule decode_isPfid)
  moreover have part: "decodePartition (substring s 10 16) = Inr (readUInt32BE ?b 6 mod 2 ^ 30)"
    using decodePartition_isPfid [OF assms] by (simp only: js_and_mask30)
  moreover have "extractPartition s = Inr (readUInt32BE ?b 6 mod 2 ^ 30)"
    using assms by (simp add: extractPartition_def part)
  ultimately show ?thesis
    by blast
qed

theorem partition_paths_agree_witness:
  "isPfid (ascii ''01an4z07byd9df0k79ka1307sr9x4mv3'')
   \<and> (\<exists>b. decode (ascii ''01an4z07byd9df0k79ka1307sr9x4mv3'') = Inr b
      \<and> decodePartition (substring (ascii ''01an4z07byd9df0k79ka1307sr9x4mv3'') 10 16)
          = Inr (readUInt32BE b 6 mod 2 ^ 30))"
proof -
  have "isPfid (ascii ''01an4z07byd9df0k79ka1307sr9x4mv3'')"
    by (simp add: isPfid_def validPattern_test_def ascii_def)
  then show ?thesis
    using partition_paths_agree [of "ascii ''01an4z07byd9df0k79ka1307sr9x4mv3''"] by blast
qed

subsection \<open>Domain checks of the generators\<close>

text \<open>
  Claim C7. Generation with a partition outside \<open>[0, 2^30 - 1]\<close> (so with \<open>-1\<close> and with
  \<open>2^30\<close>) fails with the invalid-partition error, whatever the timestamp; with a valid
  partition and a timestamp outside \<open>[0, 2^48 - 1]\<close> (so with \<open>-1\<close> and with \<open>2^48\<close>)
  it fails with the invalid-timestamp error; in both cases the result is the error and no
  encoding. With both in range (so at \<open>0\<close>, \<open>2^30 - 1\<close>, \<open>2^48 - 1\<close>) it succeeds. No
  out-of-range value is wrapped or truncated into a result.
\<close>

theorem generation_domain_checks:
  "(\<not> (0 \<le> p \<and> p \<le> 2 ^ 30 - 1) \<longrightarrow>
      generateBinaryWithTimestamp p t r = Inl InvalidPartition
      \<and> generateWithTimestamp p t r = Inl InvalidPartition)
   \<and> (0 \<le> p \<and> p \<le> 2 ^ 30 - 1 \<and> \<not> (0 \<le> t \<and> t \<le> 2 ^ 48 - 1) \<longrightarrow>
      generateBinaryWithTimestamp p t r = Inl InvalidTimestamp
      \<and> generateWithTimestamp p t r = Inl InvalidTimestamp)
   \<and> (0 \<le> p \<and> p \<le> 2 ^ 30 - 1 \<and> 0 \<le> t \<and> t \<le> 2 ^ 48 - 1 \<longrightarrow>
      (\<exists>b. generateBinaryWithTimestamp p t r = Inr b
           \<and> generateWithTimestamp p t r = Inr (unsafeEncode b)))"
  by (auto simp: generateBinaryWithTimestamp_def generateWithTimestamp_def andThen_def
      isValidPartition_def isValidTimestamp_def MAX_PARTITION_def MAX_TIMESTAMP_def)

theorem generation_domain_checks_witness:
  "generateWithTimestamp (- 1) 0 (replicate 10 0) = Inl InvalidPartition
   \<and> generateWithTimestamp (2 ^ 30) 0 (replicate 10 0) = Inl InvalidPartition
   \<and> generateWithTimestamp 0 (- 1) (replicate 10 0) = Inl InvalidTimestamp
   \<and> generateWithTimestamp 0 (2 ^ 48) (replicate 10 0) = Inl InvalidTimestamp
   \<and> generateBinaryWithTimestamp (- 1) 0 (replicate 10 0) = Inl InvalidPartition
   \<and> generateBinaryWithTimestamp (2 ^ 30) 0 (replicate 10 0) = Inl InvalidPartition
   \<and> generateBinaryWithTimestamp 0 (- 1) (replicate 10 0) = Inl InvalidTimestamp
   \<and> generateBinaryWithTimestamp 0 (2 ^ 48) (replicate 10 0) = Inl InvalidTimestamp
   \<and> (\<exists>b. generateBinaryWithTimestamp 0 0 (replicate 10 0) = Inr b
          \<and> generateWithTimestamp 0 0 (replicate 10 0) = Inr (unsafeEncode b))
   \<and> (\<exists>b. generateBinaryWithTimestamp (2 ^ 30 - 1) (2 ^ 48 - 1) (replicate 10 0) = Inr b
          \<and> generateWithTimestamp (2 ^ 30 - 1) (2 ^ 48 - 1) (replicate 10 0) = Inr (unsafeEncode b))"
  using generation_domain_checks [of "- 1" 0 "replicate 10 0"]
    generation_domain_checks [of "2 ^ 30" 0 "replicate 10 0"]
    generation_domain_checks [of 0 "- 1" "replicate 10 0"]
    generation_domain_checks [of 0 "2 ^ 48" "replicate 10 0"]
    generation_domain_checks [of 0 0 "replicate 10 0"]
    generation_domain_checks [of "2 ^ 30 - 1" "2 ^ 48 - 1" "replicate 10 0"]
  by simp

subsection \<open>What the text validator rejects\<close>

text \<open>
  Claim C8. \<open>isPfid\<close> returns false for the empty string, for every string whose length
  is not 32, for every string of 32 characters whose first character is \<open>8\<close>, \<open>9\<close> or
  outside the alphabet, and for every string of 32 characters with a character outside the
  alphabet at any position \<open>i\<close>.
\<close>

theorem isPfid_rejects:
  "\<not> isPfid []
   \<and> (length s \<noteq> 32 \<longrightarrow> \<not> isPfid s)
   \<and> (length s = 32 \<and> (s ! 0 = 0x38 \<or> s ! 0 = 0x39
          \<or> s ! 0 \<notin> set (ascii ''0123456789abcdefghjkmnpqrstvwxyz'')) \<longrightarrow> \<not> isPfid s)
   \<and> (length s = 32 \<and> i < 32 \<and> s ! i \<notin> set (ascii ''0123456789abcdefghjkmnpqrstvwxyz'')
        \<longrightarrow> \<not> isPfid s)"
proof -
  have "s ! 0 \<noteq> 0x38 \<and> s ! 0 \<noteq> 0x39 \<and> s ! 0 \<in> set ENCODE_CHARS" if "isPfid s"
    using that digit_table by (auto simp: isPfid_iff)
  moreover have "s ! i \<in> set ENCODE_CHARS" if "isPfid s" "i < 32"
    using that by (simp add: isPfid_iff)
  ultimately show ?thesis
    by (auto simp: isPfid_iff ENCODE_CHARS_def)
qed

theorem isPfid_rejects_witness:
  "\<not> isPfid (ascii ''01an4z07byd9df0k79ka1307sr9x4mv'')
   \<and> \<not> isPfid (ascii ''80000000000000000000000000000000'')
   \<and> \<not> isPfid (ascii ''0000000000000000000000000000000u'')"
  using isPfid_rejects [of "ascii ''01an4z07byd9df0k79ka1307sr9x4mv''" 0]
    isPfid_rejects [of "ascii ''80000000000000000000000000000000''" 0]
    isPfid_rejects [of "ascii ''0000000000000000000000000000000u''" 31]
  by (simp add: ascii_def)

subsection \<open>Characters that decode accepts\<close>

text \<open>
  Claim C9 says that any character outside the 32-symbol alphabet and its upper-case
  letters makes \<open>decode\<close> fail. The code unit U+212A (KELVIN SIGN) is neither a symbol of
  the alphabet nor the upper-case form of one, yet \<open>toLowerCase\<close> maps it to the letter
  \<open>k\<close>: \<open>decode\<close> accepts the 32-character string made of \<open>0\<close>, U+212A and thirty
  \<open>0\<close>, with the very result of decoding \<open>0k000000000000000000000000000000\<close>, while
  \<open>isPfid\<close> rejects that string.
\<close>

theorem decode_accepts_kelvin_sign:
  "decode (0x30 # 0x212A # ascii ''000000000000000000000000000000'')
     = Inr [0x13, 0, 0, 0, 0, 0, 0, 0, 0, 0, 0, 0, 0, 0, 0, 0, 0, 0, 0, 0]
   \<and> decode (ascii ''0k000000000000000000000000000000'')
     = Inr [0x13, 0, 0, 0, 0, 0, 0, 0, 0, 0, 0, 0, 0, 0, 0, 0, 0, 0, 0, 0]
   \<and> \<not> isPfid (0x30 # 0x212A # ascii ''000000000000000000000000000000'')"
proof -
  let ?K = "0x30 # 0x212A # ascii ''000000000000000000000000000000''"
  let ?k = "ascii ''0k000000000000000000000000000000''"
  let ?b = "[0x13, 0, 0, 0, 0, 0, 0, 0, 0, 0, 0, 0, 0, 0, 0, 0, 0, 0, 0, 0] :: Buffer"
  let ?f = "\<lambda>i::nat. if i = 1 then 19 else 0 :: nat"
  have "unsafeDecode ?K = Inr (wrs (fields ?f) 0 (replicate 20 0))"
    using kelvin_symbols by (intro unsafeDecode_fields) blast
  moreover have "unsafeDecode ?k = Inr (wrs (fields ?f) 0 (replicate 20 0))"
    using kelvin_symbols by (intro unsafeDecode_fields) blast
  moreover have "clearPadding ?b = ?b"
  proof -
    have "?b ! 6 AND 0x3f = ?b ! 6"
      by simp
    then show ?thesis
      unfolding clearPadding_def by (metis list_update_id)
  qed
  then have "unsafeDecode ?k = Inr ?b"
    using unsafeDecode_unsafeEncode [of ?b] by (simp add: kelvin_text)
  ultimately have "unsafeDecode ?K = Inr ?b"
    by simp
  then have "decode ?K = Inr ?b"
    by (simp add: decode_def ascii_def)
  moreover have "decode ?k = Inr ?b"
    using \<open>unsafeDecode ?k = Inr ?b\<close> by (simp add: decode_def ascii_def)
  moreover have "\<not> isPfid ?K"
    by (simp add: isPfid_def validPattern_test_def ascii_def)
  ultimately show ?thesis
    by (simp only: simp_thms)
qed

subsection \<open>Encoding arbitrary buffers\<close>

text \<open>
  Claim C10. For every buffer \<open>b\<close> of exactly 20 bytes, whatever its padding bits,
  \<open>encode b\<close> returns ok with a text of 32 characters whose first character is one of
  \<open>0\<close> to \<open>7\<close>, and decoding that text returns \<open>b\<close> with the top two bits of byte 6
  cleared. Clearing those bits beforehand does not change the text, so \<open>encode\<close> is not
  injective on the buffers of 20 bytes.
\<close>

theorem encode_total_discards_padding:
  "(length b = 20 \<longrightarrow>
      encode b = Inr (unsafeEncode b)
      \<and> length (unsafeEncode b) = 32
      \<and> unsafeEncode b ! 0 \<in> set (ascii ''01234567'')
      \<and> decode (unsafeEncode b) = Inr (b[6 := b ! 6 AND 0x3f])
      \<and> encode (b[6 := b ! 6 AND 0x3f]) = encode b)
   \<and> \<not> inj_on encode {b. length b = 20}"
proof -
  have general: "encode b = Inr (unsafeEncode b)
      \<and> length (unsafeEncode b) = 32
      \<and> unsafeEncode b ! 0 \<in> set (ascii ''01234567'')
      \<and> decode (unsafeEncode b) = Inr (b[6 := b ! 6 AND 0x3f])
      \<and> encode (b[6 := b ! 6 AND 0x3f]) = encode b" if "length b = 20" for b
  proof -
    have "length (clearPadding b) = 20"
      using that by (simp add: clearPadding_def)
    then have "encode (clearPadding b) = encode b"
      using that by (simp add: encode_eq unsafeEncode_clearPadding)
    moreover have "isPfid (unsafeEncode b)"
      by (rule isPfid_unsafeEncode)
    ultimately show ?thesis
      using that by (simp add: encode_eq decode_unsafeEncode isPfid_iff flip: clearPadding_def)
  qed
  let ?b = "replicate 20 (0xff :: byte)"
  have "encode (?b[6 := ?b ! 6 AND 0x3f]) = encode ?b"
    using general [of ?b] by simp
  moreover have "?b[6 := ?b ! 6 AND 0x3f] \<noteq> ?b"
  proof
    assume "?b[6 := ?b ! 6 AND 0x3f] = ?b"
    then have "(?b[6 := ?b ! 6 AND 0x3f]) ! 6 = ?b ! 6"
      by simp
    then show False
      by simp
  qed
  ultimately have "\<not> inj_on encode {b. length b = 20}"
  proof -
    assume eq: "encode (?b[6 := ?b ! 6 AND 0x3f]) = encode ?b"
      and ne: "?b[6 := ?b ! 6 AND 0x3f] \<noteq> ?b"
    show ?thesis
    proof
      assume "inj_on encode {b. length b = 20}"
      from inj_onD [OF this eq] have "?b[6 := ?b ! 6 AND 0x3f] = ?b"
        by simp
      with ne show False ..
    qed
  qed
  with general show ?thesis
    by blast
qed

theorem encode_total_discards_padding_witness:
  "length (replicate 20 (0xff :: byte)) = 20
   \<and> encode (replicate 20 0xff) = Inr (unsafeEncode (replicate 20 0xff))
   \<and> decode (unsafeEncode (replicate 20 0xff)) = Inr ((replicate 20 0xff)[6 := 0x3f])"
  using encode_total_discards_padding [of "replicate 20 0xff"] by simp

end
